theory Spec2Isabelle
  imports Complex_Main "HOL-Library.Product_Lexorder" "HOL-Library.Log_Nat"
begin

section \<open>Python values and errors\<close>

text \<open>
  The exceptions the modelled code can raise. A dictionary lookup of a missing key raises
  KeyError, an out-of-range list or array index raises IndexError, and unpacking the shape
  of an array that is not two-dimensional raises ValueError.
\<close>

datatype py_error = KeyError | IndexError | ValueError

text \<open>Sequencing of fallible steps: the first exception ends the computation.\<close>

definition bindE :: "py_error + 'a \<Rightarrow> ('a \<Rightarrow> py_error + 'b) \<Rightarrow> py_error + 'b" where
  "bindE m f = (case m of Inl e \<Rightarrow> Inl e | Inr v \<Rightarrow> f v)"

fun foldE :: "('a \<Rightarrow> 's \<Rightarrow> py_error + 's) \<Rightarrow> 'a list \<Rightarrow> 's \<Rightarrow> py_error + 's" where
  "foldE f [] s = Inr s"
| "foldE f (x # xs) s = bindE (f x s) (foldE f xs)"

text \<open>
  Indexing of a Python list or one axis of a numpy array of size \<open>n\<close>: a negative index
  counts from the end, anything outside \<open>[-n, n)\<close> raises IndexError.
\<close>

definition np_index :: "nat \<Rightarrow> int \<Rightarrow> py_error + nat" where
  "np_index n k =
     (if 0 \<le> k \<and> k < int n then Inr (nat k)
      else if - int n \<le> k \<and> k < 0 then Inr (nat (int n + k))
      else Inl IndexError)"

definition np_get :: "'a list \<Rightarrow> int \<Rightarrow> py_error + 'a" where
  "np_get xs k = bindE (np_index (length xs) k) (\<lambda>n. Inr (xs ! n))"

definition np_get2 :: "'a list list \<Rightarrow> int \<Rightarrow> int \<Rightarrow> py_error + 'a" where
  "np_get2 a i j = bindE (np_get a i) (\<lambda>r. np_get r j)"

definition np_get4 :: "'a list list list list \<Rightarrow> int \<Rightarrow> int \<Rightarrow> int \<Rightarrow> int \<Rightarrow> py_error + 'a" where
  "np_get4 a i j k l =
     bindE (np_get a i) (\<lambda>b. bindE (np_get b j) (\<lambda>c. np_get2 c k l))"

section \<open>The collaborators of the preparation class\<close>

text \<open>
  The coupling model (class EVcouplings), the wildtype (class Wildtype) and the allele
  collection are used through their attributes and methods only. The alphabet map is a
  dictionary whose keys are iterated, so it is an association list in iteration order; the
  column index map is a dictionary that is only looked up. The method \<open>map_to_uniprot\<close> of
  the wildtype is taken as a function that may raise.
\<close>

record ev_couplings =
  alphabet_map :: "(string \<times> int) list"
  index_map :: "int \<rightharpoonup> int"
  h_i :: "real list list"
  J_ij :: "real list list list list"
  num_symbols :: nat

record wildtype =
  upper :: "int list"
  lower :: "int list"
  sequence :: "string"
  map_to_uniprot :: "int \<Rightarrow> py_error + int"
  to_param_N :: "string"

record allele_collection =
  to_set_A :: "string"
  to_param_pssm_thresh :: "string"
  to_param_p :: "string"
  to_param_pssm :: "int \<Rightarrow> string"

section \<open>The state of AbstractDeimmuPreparation\<close>

record deimmu_prep =
  wt :: wildtype
  allele_coll :: allele_collection
  num_mutations :: int
  epitope_length :: int
  excluded_pos :: "int list"
  ignored_pos :: "int list"
  use_single_site_model :: bool
  single_hi :: "real list list"
  possible_mutations :: "string list list"
  hi :: "(int \<times> string) \<rightharpoonup> real"
  hi_indices :: "int list"
  eij_indices :: "(int \<times> int) list"
  eij :: "(int \<times> int \<times> string \<times> string) \<rightharpoonup> real"

section \<open>extract\_ev\_paras\<close>

text \<open>The keys of the alphabet map other than the gap, in iteration order.\<close>

definition nogap_keys :: "ev_couplings \<Rightarrow> string list" where
  "nogap_keys ev = filter (\<lambda>x. x \<noteq> ''-'') (map fst (alphabet_map ev))"

text \<open>Dictionary lookup \<open>d[k]\<close>.\<close>

definition dict_get :: "('k \<rightharpoonup> 'v) \<Rightarrow> 'k \<Rightarrow> py_error + 'v" where
  "dict_get d k = (case d k of None \<Rightarrow> Inl KeyError | Some v \<Rightarrow> Inr v)"

text \<open>
  The right-hand side of the assignment to \<open>hi[(i, ai)]\<close> on the native path, evaluated
  in Python's order: the column of the position, the index of the symbol, the array read.
\<close>

definition native_field :: "ev_couplings \<Rightarrow> wildtype \<Rightarrow> int \<Rightarrow> string \<Rightarrow> py_error + real" where
  "native_field ev w i ai =
     bindE (map_to_uniprot w i) (\<lambda>u.
     bindE (dict_get (index_map ev) u) (\<lambda>c.
     bindE (dict_get (map_of (alphabet_map ev)) ai) (\<lambda>a.
     bindE (np_get2 (h_i ev) c a) (\<lambda>v. Inr (- 1 * v)))))"

definition native_hi ::
  "ev_couplings \<Rightarrow> wildtype \<Rightarrow> ((int \<times> string) \<rightharpoonup> real) \<Rightarrow> py_error + ((int \<times> string) \<rightharpoonup> real)" where
  "native_hi ev w =
     foldE (\<lambda>i. foldE (\<lambda>ai h. bindE (native_field ev w i ai) (\<lambda>v. Inr (h((i, ai) \<mapsto> v))))
                      (nogap_keys ev))
           (upper w)"

text \<open>The fallback path: the fitted single-site fields of the non-ignored lower positions.\<close>

definition fallback_field :: "ev_couplings \<Rightarrow> real list list \<Rightarrow> int \<Rightarrow> string \<Rightarrow> py_error + real" where
  "fallback_field ev sh i ai =
     bindE (dict_get (map_of (alphabet_map ev)) ai) (\<lambda>a.
     bindE (np_get2 sh i a) (\<lambda>v. Inr (- 1 * v)))"

definition fallback_hi ::
  "ev_couplings \<Rightarrow> deimmu_prep \<Rightarrow> int list \<times> ((int \<times> string) \<rightharpoonup> real)
     \<Rightarrow> py_error + (int list \<times> ((int \<times> string) \<rightharpoonup> real))" where
  "fallback_hi ev p =
     foldE (\<lambda>i (idx, h).
              if i \<notin> set (ignored_pos p)
              then bindE (foldE (\<lambda>ai h'. bindE (fallback_field ev (single_hi p) i ai)
                                                (\<lambda>v. Inr (h'((i, ai) \<mapsto> v))))
                                (nogap_keys ev) h)
                         (\<lambda>h'. Inr (idx @ [i], h'))
              else Inr (idx, h))
           (lower (wt p))"

text \<open>The pair list: the comprehension, then \<open>sorted(set(...))\<close>.\<close>

definition eij_pairs :: "int list \<Rightarrow> int list \<Rightarrow> (int \<times> int) list" where
  "eij_pairs up ign =
     concat (map (\<lambda>i. concat (map (\<lambda>j.
        if i \<noteq> j \<and> ((i < j \<and> i \<notin> set ign) \<or> (j < i \<and> j \<notin> set ign))
        then [if i < j then (i, j) else (j, i)] else []) up)) up)"

definition build_eij_indices :: "int list \<Rightarrow> int list \<Rightarrow> (int \<times> int) list" where
  "build_eij_indices up ign = sort (remdups (eij_pairs up ign))"

text \<open>The right-hand side of the assignment to \<open>eij[(i, j, ai, aj)]\<close>.\<close>

definition coupling :: "ev_couplings \<Rightarrow> wildtype \<Rightarrow> int \<Rightarrow> int \<Rightarrow> string \<Rightarrow> string \<Rightarrow> py_error + real" where
  "coupling ev w i j ai aj =
     bindE (map_to_uniprot w i) (\<lambda>ui.
     bindE (dict_get (index_map ev) ui) (\<lambda>ci.
     bindE (map_to_uniprot w j) (\<lambda>uj.
     bindE (dict_get (index_map ev) uj) (\<lambda>cj.
     bindE (dict_get (map_of (alphabet_map ev)) ai) (\<lambda>a.
     bindE (dict_get (map_of (alphabet_map ev)) aj) (\<lambda>b.
     bindE (np_get4 (J_ij ev) ci cj a b) (\<lambda>v. Inr (- 1 * v))))))))"

definition build_eij ::
  "ev_couplings \<Rightarrow> deimmu_prep \<Rightarrow> (int \<times> int) list
     \<Rightarrow> ((int \<times> int \<times> string \<times> string) \<rightharpoonup> real)
     \<Rightarrow> py_error + ((int \<times> int \<times> string \<times> string) \<rightharpoonup> real)" where
  "build_eij ev p =
     foldE (\<lambda>(i, j) t.
        bindE (np_get (possible_mutations p) i) (\<lambda>mi.
        foldE (\<lambda>ai t1.
           bindE (np_get (possible_mutations p) j) (\<lambda>mj.
           foldE (\<lambda>aj t2. bindE (coupling ev (wt p) i j ai aj)
                                 (\<lambda>v. Inr (t2((i, j, ai, aj) \<mapsto> v))))
                 mj t1))
          mi t))"

text \<open>
  The test \<open>a in self.possible_mutations[i]\<close>; it is false where the index is out of range.
\<close>

definition in_mutations :: "deimmu_prep \<Rightarrow> int \<Rightarrow> string \<Rightarrow> bool" where
  "in_mutations p i a = (case np_get (possible_mutations p) i of Inl e \<Rightarrow> False | Inr m \<Rightarrow> a \<in> set m)"

definition extract_ev_paras :: "ev_couplings \<Rightarrow> deimmu_prep \<Rightarrow> py_error + deimmu_prep" where
  "extract_ev_paras ev p =
     (let idx0 = filter (\<lambda>i. i \<notin> set (ignored_pos p)) (upper (wt p));
          pairs = build_eij_indices (upper (wt p)) (ignored_pos p)
      in bindE (native_hi ev (wt p) Map.empty) (\<lambda>h1.
         bindE (if use_single_site_model p then fallback_hi ev p (idx0, h1) else Inr (idx0, h1))
           (\<lambda>(idx1, h2).
         bindE (build_eij ev p pairs Map.empty) (\<lambda>t.
         Inr (p\<lparr>hi := h2, hi_indices := sort idx1, eij_indices := pairs, eij := t\<rparr>)))))"

section \<open>\_frequencies\<close>

text \<open>
  The method \<open>upper\<close> and \<open>lower\<close> of a Python 2 byte string change the ASCII letters only.
\<close>

definition upper_char :: "char \<Rightarrow> char" where
  "upper_char c = (let n = of_char c :: nat in if 97 \<le> n \<and> n \<le> 122 then char_of (n - 32) else c)"

definition lower_char :: "char \<Rightarrow> char" where
  "lower_char c = (let n = of_char c :: nat in if 65 \<le> n \<and> n \<le> 90 then char_of (n + 32) else c)"

definition str_upper :: "string \<Rightarrow> string" where
  "str_upper = map upper_char"

definition str_lower :: "string \<Rightarrow> string" where
  "str_lower = map lower_char"

text \<open>The symbols that are counted in no bucket.\<close>

definition excluded_symbols :: "string list" where
  "excluded_symbols = [''-'', ''.'', ''X'', ''B'', ''Z'']"

text \<open>
  The matrix is the array built from the list of the alignment's records. Unpacking
  \<open>matrix.shape\<close> into \<open>N, L\<close> needs a two-dimensional array: an empty list of rows and
  rows of different lengths give a one-dimensional array, and the unpacking raises.
\<close>

definition shape2 :: "'a list list \<Rightarrow> py_error + (nat \<times> nat)" where
  "shape2 m =
     (if m \<noteq> [] \<and> (\<forall>r\<in>set m. length r = length (hd m))
      then Inr (length m, length (hd m)) else Inl ValueError)"

text \<open>The column of \<open>fi\<close> that \<open>fi[i, ev_couplings.alphabet_map[aa]]\<close> addresses.\<close>

definition symbol_index :: "ev_couplings \<Rightarrow> string \<Rightarrow> py_error + nat" where
  "symbol_index ev aa =
     bindE (dict_get (map_of (alphabet_map ev)) aa) (np_index (num_symbols ev))"

text \<open>
  The entries of \<open>fi\<close> are binary64 numbers. Their arithmetic is numpy's; the three
  operations that \_frequencies uses are taken as parameters, over any type of numbers: the
  entry \<open>0.0\<close> of \<open>np.zeros\<close>, the update \<open>x += 1\<close> and the division \<open>x / N\<close> by the number
  of sequences.
\<close>

record 'f float_ops =
  fl_zero :: 'f
  fl_incr :: "'f \<Rightarrow> 'f"
  fl_div :: "'f \<Rightarrow> nat \<Rightarrow> 'f"

text \<open>The body of the inner loop, for the cell \<open>matrix[s, i]\<close>.\<close>

definition count_cell ::
  "'f float_ops \<Rightarrow> ev_couplings \<Rightarrow> nat \<Rightarrow> string \<Rightarrow> 'f list list \<Rightarrow> py_error + 'f list list" where
  "count_cell fl ev i cell fi =
     (let aa = str_upper cell in
      if aa \<notin> set excluded_symbols
      then bindE (symbol_index ev aa) (\<lambda>c. Inr (fi[i := (fi ! i)[c := fl_incr fl (fi ! i ! c)]]))
      else Inr fi)"

definition frequencies ::
  "'f float_ops \<Rightarrow> string list list \<Rightarrow> ev_couplings \<Rightarrow> py_error + 'f list list" where
  "frequencies fl matrix ev =
     bindE (shape2 matrix) (\<lambda>(N, L).
     bindE (foldE (\<lambda>s. foldE (\<lambda>i. count_cell fl ev i (matrix ! s ! i)) [0..<L]) [0..<N]
                  (replicate L (replicate (num_symbols ev) (fl_zero fl))))
           (\<lambda>fi. Inr (map (map (\<lambda>x. fl_div fl x N)) fi)))"

section \<open>binary64\<close>

text \<open>
  A finite binary64 number is the rational that it denotes. The result of an operation is the
  exact result rounded to the nearest binary64 number, ties to the one with an even
  significand. The significand has 53 bits; below \<open>2 ^ -1022\<close> the numbers are spaced by
  \<open>2 ^ -1074\<close>. Results beyond the largest binary64 number do not arise here: a count that
  reaches \<open>2 ^ 53\<close> stays there, and a quotient is not larger than its numerator.
\<close>

definition pow2 :: "int \<Rightarrow> rat" where
  "pow2 k = (if 0 \<le> k then 2 ^ nat k else 1 / 2 ^ nat (- k))"

text \<open>
  The integer part of the binary logarithm of a positive rational \<open>p / q\<close>: with the numbers
  of bits of \<open>p\<close> and \<open>q\<close> differing by \<open>k\<close>, the quotient is between \<open>2 ^ (k - 1)\<close> and
  \<open>2 ^ (k + 1)\<close>.
\<close>

definition ilog2 :: "rat \<Rightarrow> int" where
  "ilog2 x = (let (p, q) = quotient_of x; k = bitlen p - bitlen q
              in if pow2 k \<le> x then k else k - 1)"

definition round_even :: "rat \<Rightarrow> int" where
  "round_even y =
     (let f = \<lfloor>y\<rfloor>; d = y - of_int f
      in if d < 1 / 2 then f else if 1 / 2 < d then f + 1 else if even f then f else f + 1)"

definition round64 :: "rat \<Rightarrow> rat" where
  "round64 x =
     (if x = 0 then 0
      else let a = \<bar>x\<bar>; e = max (ilog2 a) (- 1022); u = pow2 (e - 52)
           in sgn x * (of_int (round_even (a / u)) * u))"

text \<open>
  The operations of \_frequencies in binary64: \<open>x += 1\<close>, and \<open>x / N\<close> with the integer
  \<open>N\<close> converted to binary64 first.
\<close>

definition binary64_ops :: "rat float_ops" where
  "binary64_ops =
     \<lparr>fl_zero = 0,
      fl_incr = (\<lambda>x. round64 (x + 1)),
      fl_div = (\<lambda>x n. round64 (x / round64 (of_nat n)))\<rparr>"

text \<open>The sum of a row, added from left to right in binary64.\<close>

definition sum64 :: "rat list \<Rightarrow> rat" where
  "sum64 xs = foldl (\<lambda>a b. round64 (a + b)) 0 xs"

text \<open>
  Whether the cell is counted in column \<open>c\<close> of its row of \<open>fi\<close>: its upper-case form is
  not excluded and has index \<open>c\<close>.
\<close>

definition hits :: "ev_couplings \<Rightarrow> string \<Rightarrow> nat \<Rightarrow> bool" where
  "hits ev cell c \<longleftrightarrow>
     str_upper cell \<notin> set excluded_symbols \<and> symbol_index ev (str_upper cell) = Inr c"

section \<open>The serializer\<close>




















section \<open>Reading the output back\<close>




fun split_on :: "char \<Rightarrow> string \<Rightarrow> string list" where
  "split_on c [] = [[]]"
| "split_on c (x # xs) =
     (if x = c then [] # split_on c xs
      else (x # hd (split_on c xs)) # tl (split_on c xs))"

section \<open>Example inputs\<close>

text \<open>
  A coupling model over the alphabet A, C and gap with three columns (numbered 10, 11, 12),
  and a wildtype of four positions: positions 0, 1, 2 are native, position 3 is an insertion.
  Position 0 is ignored.
\<close>

definition ev_ex :: ev_couplings where
  "ev_ex = \<lparr>alphabet_map = [(''A'', 0), (''C'', 1), (''-'', 2)],
            index_map = [10 \<mapsto> 0, 11 \<mapsto> 1, 12 \<mapsto> 2],
            h_i = [[1, 2, 3], [4, 5, 6], [7, 8, 9]],
            J_ij = replicate 3 (replicate 3 [[1, 2, 3], [4, 5, 6], [7, 8, 9]]),
            num_symbols = 3\<rparr>"

definition wt_ex :: wildtype where
  "wt_ex = \<lparr>upper = [0, 1, 2], lower = [3], sequence = ''ACAC'',
            map_to_uniprot = (\<lambda>i. Inr (i + 10)), to_param_N = ''4''\<rparr>"

definition ac_ex :: allele_collection where
  "ac_ex = \<lparr>to_set_A = ''a1'', to_param_pssm_thresh = ''t'', to_param_p = ''p'',
            to_param_pssm = (\<lambda>n. ''s'')\<rparr>"

definition p_ex :: deimmu_prep where
  "p_ex = \<lparr>wt = wt_ex, allele_coll = ac_ex, num_mutations = 1, epitope_length = 9,
           excluded_pos = [], ignored_pos = [0], use_single_site_model = True,
           single_hi = [[0, 0, 0], [0, 0, 0], [0, 0, 0], [1/2, 1/4, 0]],
           possible_mutations = [[''A''], [''C''], [''A''], [''A'', ''C'']],
           hi = Map.empty, hi_indices = [], eij_indices = [], eij = Map.empty\<rparr>"

text \<open>
  An alignment of four sequences and three columns, and the same alignment with some residues
  in lower case.
\<close>

definition matrix_ex :: "string list list" where
  "matrix_ex = [[''A'', ''C'', ''-''], [''A'', ''C'', ''X''], [''C'', ''C'', ''.''], [''A'', ''-'', ''B'']]"

definition matrix_ex_lower :: "string list list" where
  "matrix_ex_lower = [[''A'', ''c'', ''-''], [''a'', ''C'', ''x''], [''C'', ''C'', ''.''], [''A'', ''-'', ''b'']]"

text \<open>
  The free arithmetic: every number is the term of operations that produced it. Any other
  arithmetic, binary64 included, is an image of this one.
\<close>

datatype fterm = FZero | FIncr fterm | FDiv fterm nat

definition term_ops :: "fterm float_ops" where
  "term_ops = \<lparr>fl_zero = FZero, fl_incr = FIncr, fl_div = FDiv\<rparr>"




text \<open>
  One column of six sequences, with the residues A, A, C, C, C, D and no excluded symbol, over
  the alphabet A, C, D and gap.
\<close>

definition ev_acd :: ev_couplings where
  "ev_acd = \<lparr>alphabet_map = [(''A'', 0), (''C'', 1), (''D'', 2), (''-'', 3)],
             index_map = Map.empty, h_i = [], J_ij = [], num_symbols = 4\<rparr>"

definition column_ex :: "string list list" where
  "column_ex = [[''A''], [''A''], [''C''], [''C''], [''C''], [''D'']]"

section \<open>Properties of the fallible loops\<close>

lemma bindE_simps [simp]: "bindE (Inl e) f = Inl e" "bindE (Inr v) f = f v"
  by (simp_all add: bindE_def)

lemma bindE_Inr_iff: "bindE m f = Inr y \<longleftrightarrow> (\<exists>v. m = Inr v \<and> f v = Inr y)"
  by (cases m) simp_all

lemma foldE_upd:
  assumes "foldE (\<lambda>a h. bindE (g a) (\<lambda>v. Inr (h(k a \<mapsto> v)))) xs h0 = Inr h" and "inj k"
  shows "(\<forall>a\<in>set xs. \<exists>v. g a = Inr v \<and> h (k a) = Some v) \<and>
         (\<forall>key. key \<notin> k ` set xs \<longrightarrow> h key = h0 key)"
  using assms(1)
proof (induction xs arbitrary: h0)
  case Nil
  then show ?case by simp
next
  case (Cons x xs)
  let ?F = "\<lambda>a h. bindE (g a) (\<lambda>v. Inr (h(k a \<mapsto> v)))"
  from Cons.prems have step: "bindE (bindE (g x) (\<lambda>v. Inr (h0(k x \<mapsto> v)))) (foldE ?F xs) = Inr h"
    by (simp only: foldE.simps)
  then obtain v where gx: "g x = Inr v"
    by (cases "g x") (simp_all add: bindE_def)
  from step have rest: "foldE ?F xs (h0(k x \<mapsto> v)) = Inr h"
    by (simp only: gx bindE_simps)
  from Cons.IH [OF rest]
  have ih1: "\<forall>a\<in>set xs. \<exists>v. g a = Inr v \<and> h (k a) = Some v"
    and ih2: "\<forall>key. key \<notin> k ` set xs \<longrightarrow> h key = (h0(k x \<mapsto> v)) key"
    by blast+
  have "\<exists>v. g x = Inr v \<and> h (k x) = Some v"
  proof (cases "x \<in> set xs")
    case True
    with ih1 show ?thesis by blast
  next
    case False
    with \<open>inj k\<close> have "k x \<notin> k ` set xs" by (auto dest: injD)
    with ih2 have "h (k x) = Some v" by simp
    with gx show ?thesis by simp
  qed
  moreover have "\<forall>key. key \<notin> k ` set (x # xs) \<longrightarrow> h key = h0 key"
    using ih2 by auto
  ultimately show ?case using ih1 by simp
qed






lemma foldE_upd2:
  assumes "foldE (\<lambda>a. foldE (\<lambda>b h. bindE (g a b) (\<lambda>v. Inr (h(k a b \<mapsto> v)))) ys) xs h0 = Inr h"
    and inj2: "\<And>a b a' b'. k a b = k a' b' \<Longrightarrow> a = a' \<and> b = b'"
  shows "(\<forall>a\<in>set xs. \<forall>b\<in>set ys. \<exists>v. g a b = Inr v \<and> h (k a b) = Some v) \<and>
         (\<forall>key. key \<notin> {k a b | a b. a \<in> set xs \<and> b \<in> set ys} \<longrightarrow> h key = h0 key)"
  using assms(1)
proof (induction xs arbitrary: h0)
  case Nil
  then show ?case by simp
next
  case (Cons x xs)
  let ?In = "\<lambda>a. foldE (\<lambda>b h. bindE (g a b) (\<lambda>v. Inr (h(k a b \<mapsto> v)))) ys"
  from Cons.prems have step: "bindE (?In x h0) (foldE ?In xs) = Inr h"
    by (simp only: foldE.simps)
  then obtain h1 where first: "?In x h0 = Inr h1"
    by (cases "?In x h0") (simp_all add: bindE_def)
  from step have rest: "foldE ?In xs h1 = Inr h"
    by (simp only: first bindE_simps)
  have "inj (k x)"
    using inj2 by (auto intro!: injI)
  from foldE_upd [OF first this]
  have f1: "\<forall>b\<in>set ys. \<exists>v. g x b = Inr v \<and> h1 (k x b) = Some v"
    and f2: "\<forall>key. key \<notin> k x ` set ys \<longrightarrow> h1 key = h0 key"
    by blast+
  from Cons.IH [OF rest]
  have ih1: "\<forall>a\<in>set xs. \<forall>b\<in>set ys. \<exists>v. g a b = Inr v \<and> h (k a b) = Some v"
    and ih2: "\<forall>key. key \<notin> {k a b | a b. a \<in> set xs \<and> b \<in> set ys} \<longrightarrow> h key = h1 key"
    by blast+
  have "\<exists>v. g x b = Inr v \<and> h (k x b) = Some v" if b: "b \<in> set ys" for b
  proof (cases "x \<in> set xs")
    case True
    with ih1 b show ?thesis by blast
  next
    case False
    with inj2 have "k x b \<notin> {k a b | a b. a \<in> set xs \<and> b \<in> set ys}" by blast
    with ih2 have "h (k x b) = h1 (k x b)" by blast
    with f1 b show ?thesis by auto
  qed
  moreover have "h key = h0 key"
    if "key \<notin> {k a b | a b. a \<in> set (x # xs) \<and> b \<in> set ys}" for key
  proof -
    from that have "key \<notin> {k a b | a b. a \<in> set xs \<and> b \<in> set ys}" and "key \<notin> k x ` set ys"
      by auto
    with ih2 f2 show ?thesis by simp
  qed
  ultimately show ?case using ih1 by simp
qed

lemma native_hi_result:
  assumes "native_hi ev w h0 = Inr h"
  shows "(\<forall>i\<in>set (upper w). \<forall>ai\<in>set (nogap_keys ev). \<exists>v. native_field ev w i ai = Inr v \<and> h (i, ai) = Some v) \<and>
         (\<forall>i ai. \<not> (i \<in> set (upper w) \<and> ai \<in> set (nogap_keys ev)) \<longrightarrow> h (i, ai) = h0 (i, ai))"
proof -
  have "\<And>a b a' b'. (a, b) = (a', b') \<Longrightarrow> a = a' \<and> b = b'" by simp
  from foldE_upd2 [where k = Pair, OF assms [unfolded native_hi_def] this]
  show ?thesis by blast
qed

lemma fallback_loop:
  "foldE (\<lambda>i (idx, h).
            if i \<notin> ign
            then bindE (F i h) (\<lambda>h'. Inr (idx @ [i], h'))
            else Inr (idx, h)) xs (idx, h0) =
   bindE (foldE F (filter (\<lambda>i. i \<notin> ign) xs) h0)
         (\<lambda>h. Inr (idx @ filter (\<lambda>i. i \<notin> ign) xs, h))"
proof (induction xs arbitrary: idx h0)
  case Nil
  then show ?case by simp
next
  case (Cons x xs)
  show ?case
  proof (cases "x \<in> ign")
    case True
    then show ?thesis using Cons.IH by simp
  next
    case False
    show ?thesis
    proof (cases "F x h0")
      case (Inl e)
      with False show ?thesis by simp
    next
      case (Inr h1)
      with False show ?thesis using Cons.IH [of "idx @ [x]" h1] by simp
    qed
  qed
qed

lemma fallback_hi_result:
  assumes "fallback_hi ev p (idx, h0) = Inr (idx', h)"
  shows "idx' = idx @ filter (\<lambda>i. i \<notin> set (ignored_pos p)) (lower (wt p))"
    and "\<forall>i\<in>set (lower (wt p)). i \<notin> set (ignored_pos p) \<longrightarrow>
           (\<forall>ai\<in>set (nogap_keys ev). \<exists>v. fallback_field ev (single_hi p) i ai = Inr v \<and> h (i, ai) = Some v)"
    and "\<forall>i ai. \<not> (i \<in> set (lower (wt p)) \<and> i \<notin> set (ignored_pos p) \<and> ai \<in> set (nogap_keys ev))
           \<longrightarrow> h (i, ai) = h0 (i, ai)"
proof -
  let ?In = "\<lambda>i. foldE (\<lambda>ai h'. bindE (fallback_field ev (single_hi p) i ai)
                                     (\<lambda>v. Inr (h'((i, ai) \<mapsto> v)))) (nogap_keys ev)"
  let ?xs = "filter (\<lambda>i. i \<notin> set (ignored_pos p)) (lower (wt p))"
  from assms have eq: "bindE (foldE ?In ?xs h0) (\<lambda>h. Inr (idx @ ?xs, h)) = Inr (idx', h)"
    unfolding fallback_hi_def fallback_loop .
  then obtain h1 where f: "foldE ?In ?xs h0 = Inr h1"
    by (cases "foldE ?In ?xs h0") (simp_all add: bindE_def)
  with eq have "idx' = idx @ ?xs" and hh: "h1 = h" by simp_all
  then show "idx' = idx @ ?xs" by simp
  have "\<And>a b a' b'. (a, b) = (a', b') \<Longrightarrow> a = a' \<and> b = b'" by simp
  from foldE_upd2 [where k = Pair, OF f this] hh
  have r1: "\<forall>a\<in>set ?xs. \<forall>b\<in>set (nogap_keys ev).
              \<exists>v. fallback_field ev (single_hi p) a b = Inr v \<and> h (a, b) = Some v"
    and r2: "\<forall>key. key \<notin> {(a, b) | a b. a \<in> set ?xs \<and> b \<in> set (nogap_keys ev)} \<longrightarrow> h key = h0 key"
    by blast+
  from r1 show "\<forall>i\<in>set (lower (wt p)). i \<notin> set (ignored_pos p) \<longrightarrow>
           (\<forall>ai\<in>set (nogap_keys ev). \<exists>v. fallback_field ev (single_hi p) i ai = Inr v \<and> h (i, ai) = Some v)"
    by simp
  from r2 show "\<forall>i ai. \<not> (i \<in> set (lower (wt p)) \<and> i \<notin> set (ignored_pos p) \<and> ai \<in> set (nogap_keys ev))
           \<longrightarrow> h (i, ai) = h0 (i, ai)"
    by simp
qed

lemma pair_step_result:
  assumes "bindE (np_get (possible_mutations p) i) (\<lambda>mi.
             foldE (\<lambda>ai t1.
                bindE (np_get (possible_mutations p) j) (\<lambda>mj.
                foldE (\<lambda>aj t2. bindE (coupling ev w i j ai aj)
                                      (\<lambda>v. Inr (t2((i, j, ai, aj) \<mapsto> v))))
                      mj t1))
               mi t) = Inr t'"
  shows "(\<forall>ai aj. in_mutations p i ai \<and> in_mutations p j aj \<longrightarrow>
            (\<exists>v. coupling ev w i j ai aj = Inr v \<and> t' (i, j, ai, aj) = Some v)) \<and>
         (\<forall>key. \<not> (\<exists>ai aj. key = (i, j, ai, aj) \<and> in_mutations p i ai \<and> in_mutations p j aj)
            \<longrightarrow> t' key = t key)"
proof -
  from assms obtain mi where mi: "np_get (possible_mutations p) i = Inr mi"
    by (cases "np_get (possible_mutations p) i") simp_all
  let ?inner = "\<lambda>ai. foldE (\<lambda>aj t2. bindE (coupling ev w i j ai aj)
                                      (\<lambda>v. Inr (t2((i, j, ai, aj) \<mapsto> v))))"
  from assms have f: "foldE (\<lambda>ai t1. bindE (np_get (possible_mutations p) j) (\<lambda>mj. ?inner ai mj t1)) mi t = Inr t'"
    unfolding mi bindE_simps .
  show ?thesis
  proof (cases "np_get (possible_mutations p) j")
    case (Inl e)
    have "mi = []"
    proof (rule ccontr)
      assume "mi \<noteq> []"
      then obtain a as where "mi = a # as" by (cases mi) auto
      with f Inl show False by simp
    qed
    with f have "t' = t" by simp
    moreover from Inl have "\<not> in_mutations p j aj" for aj
      by (simp add: in_mutations_def)
    ultimately show ?thesis by simp
  next
    case (Inr mj)
    from f have g: "foldE (\<lambda>ai. ?inner ai mj) mi t = Inr t'"
      unfolding Inr bindE_simps .
    have inj: "\<And>a b a' b'. (i, j, a, b) = (i, j, a', b') \<Longrightarrow> a = a' \<and> b = b'" by simp
    from foldE_upd2 [where k = "\<lambda>a b. (i, j, a, b)", OF g inj]
    have r1: "\<forall>a\<in>set mi. \<forall>b\<in>set mj. \<exists>v. coupling ev w i j a b = Inr v \<and> t' (i, j, a, b) = Some v"
      and r2: "\<forall>key. key \<notin> {(i, j, a, b) | a b. a \<in> set mi \<and> b \<in> set mj} \<longrightarrow> t' key = t key"
      by blast+
    have m: "in_mutations p i a \<longleftrightarrow> a \<in> set mi" "in_mutations p j b \<longleftrightarrow> b \<in> set mj" for a b
      by (simp_all add: in_mutations_def mi Inr)
    from r1 r2 show ?thesis unfolding m by blast
  qed
qed

lemma build_eij_result:
  assumes "build_eij ev p pairs t0 = Inr t"
  shows "(\<forall>i j ai aj. (i, j) \<in> set pairs \<and> in_mutations p i ai \<and> in_mutations p j aj \<longrightarrow>
            (\<exists>v. coupling ev (wt p) i j ai aj = Inr v \<and> t (i, j, ai, aj) = Some v)) \<and>
         (\<forall>i j ai aj. \<not> ((i, j) \<in> set pairs \<and> in_mutations p i ai \<and> in_mutations p j aj) \<longrightarrow>
            t (i, j, ai, aj) = t0 (i, j, ai, aj))"
  using assms
proof (induction pairs arbitrary: t0)
  case Nil
  then show ?case by (simp add: build_eij_def)
next
  case (Cons x xs)
  obtain i j where x: "x = (i, j)" by (cases x)
  let ?step = "\<lambda>(i, j) t.
        bindE (np_get (possible_mutations p) i) (\<lambda>mi.
        foldE (\<lambda>ai t1.
           bindE (np_get (possible_mutations p) j) (\<lambda>mj.
           foldE (\<lambda>aj t2. bindE (coupling ev (wt p) i j ai aj)
                                 (\<lambda>v. Inr (t2((i, j, ai, aj) \<mapsto> v))))
                 mj t1))
          mi t)"
  from Cons.prems have a: "bindE (?step (i, j) t0) (foldE ?step xs) = Inr t"
    unfolding build_eij_def x foldE.simps .
  then obtain t1 where first: "?step (i, j) t0 = Inr t1"
    by (cases "?step (i, j) t0") simp_all
  from a have "foldE ?step xs t1 = Inr t"
    unfolding first bindE_simps .
  then have rest: "build_eij ev p xs t1 = Inr t"
    unfolding build_eij_def .
  from pair_step_result [OF first [unfolded prod.case]]
  have s1: "\<forall>ai aj. in_mutations p i ai \<and> in_mutations p j aj \<longrightarrow>
            (\<exists>v. coupling ev (wt p) i j ai aj = Inr v \<and> t1 (i, j, ai, aj) = Some v)"
    and s2: "\<forall>key. \<not> (\<exists>ai aj. key = (i, j, ai, aj) \<and> in_mutations p i ai \<and> in_mutations p j aj)
            \<longrightarrow> t1 key = t0 key"
    by blast+
  from Cons.IH [OF rest]
  have ih1: "\<forall>i j ai aj. (i, j) \<in> set xs \<and> in_mutations p i ai \<and> in_mutations p j aj \<longrightarrow>
            (\<exists>v. coupling ev (wt p) i j ai aj = Inr v \<and> t (i, j, ai, aj) = Some v)"
    and ih2: "\<forall>i j ai aj. \<not> ((i, j) \<in> set xs \<and> in_mutations p i ai \<and> in_mutations p j aj) \<longrightarrow>
            t (i, j, ai, aj) = t1 (i, j, ai, aj)"
    by blast+
  have "\<exists>v. coupling ev (wt p) i' j' ai aj = Inr v \<and> t (i', j', ai, aj) = Some v"
    if h: "(i', j') \<in> set (x # xs)" "in_mutations p i' ai" "in_mutations p j' aj" for i' j' ai aj
  proof (cases "(i', j') \<in> set xs")
    case True
    with ih1 h show ?thesis by blast
  next
    case False
    with h x have e: "i' = i" "j' = j" by auto
    from False ih2 have "t (i', j', ai, aj) = t1 (i', j', ai, aj)" by blast
    with s1 h e show ?thesis by auto
  qed
  moreover have "t (i', j', ai, aj) = t0 (i', j', ai, aj)"
    if h: "\<not> ((i', j') \<in> set (x # xs) \<and> in_mutations p i' ai \<and> in_mutations p j' aj)" for i' j' ai aj
  proof -
    from h have "\<not> ((i', j') \<in> set xs \<and> in_mutations p i' ai \<and> in_mutations p j' aj)" by auto
    with ih2 have 1: "t (i', j', ai, aj) = t1 (i', j', ai, aj)" by blast
    from h x have "\<not> (\<exists>a b. (i', j', ai, aj) = (i, j, a, b) \<and> in_mutations p i a \<and> in_mutations p j b)"
      by auto
    with s2 have "t1 (i', j', ai, aj) = t0 (i', j', ai, aj)" by blast
    with 1 show ?thesis by simp
  qed
  ultimately show ?case by blast
qed

lemma extract_ev_paras_Inr:
  assumes "extract_ev_paras ev p = Inr p'"
  obtains h1 idx1 h2 t where
    "native_hi ev (wt p) Map.empty = Inr h1"
    "(if use_single_site_model p
      then fallback_hi ev p (filter (\<lambda>i. i \<notin> set (ignored_pos p)) (upper (wt p)), h1)
      else Inr (filter (\<lambda>i. i \<notin> set (ignored_pos p)) (upper (wt p)), h1)) = Inr (idx1, h2)"
    "build_eij ev p (build_eij_indices (upper (wt p)) (ignored_pos p)) Map.empty = Inr t"
    "p' = p\<lparr>hi := h2, hi_indices := sort idx1,
            eij_indices := build_eij_indices (upper (wt p)) (ignored_pos p), eij := t\<rparr>"
proof -
  let ?idx0 = "filter (\<lambda>i. i \<notin> set (ignored_pos p)) (upper (wt p))"
  let ?pairs = "build_eij_indices (upper (wt p)) (ignored_pos p)"
  let ?fb = "\<lambda>h1. if use_single_site_model p then fallback_hi ev p (?idx0, h1) else Inr (?idx0, h1)"
  from assms have a: "bindE (native_hi ev (wt p) Map.empty) (\<lambda>h1.
         bindE (?fb h1) (\<lambda>(idx1, h2).
         bindE (build_eij ev p ?pairs Map.empty) (\<lambda>t.
         Inr (p\<lparr>hi := h2, hi_indices := sort idx1, eij_indices := ?pairs, eij := t\<rparr>)))) = Inr p'"
    unfolding extract_ev_paras_def Let_def .
  then obtain h1 where 1: "native_hi ev (wt p) Map.empty = Inr h1"
    by (cases "native_hi ev (wt p) Map.empty") simp_all
  from a obtain r where 2: "?fb h1 = Inr r"
    unfolding 1 bindE_simps by (cases "?fb h1") simp_all
  obtain idx1 h2 where r: "r = (idx1, h2)" by (cases r)
  from a obtain t where 3: "build_eij ev p ?pairs Map.empty = Inr t"
    unfolding 1 bindE_simps 2 r prod.case by (cases "build_eij ev p ?pairs Map.empty") simp_all
  from a have 4: "p' = p\<lparr>hi := h2, hi_indices := sort idx1, eij_indices := ?pairs, eij := t\<rparr>"
    unfolding 1 bindE_simps 2 r prod.case 3 by simp
  from that [OF 1 2 [unfolded r] 3 4] show thesis .
qed

text \<open>The two energy tables after a successful extraction, entry by entry.\<close>

lemma hi_result:
  assumes "extract_ev_paras ev p = Inr p'"
  shows "hi p' (i, ai) =
     (if use_single_site_model p \<and> i \<in> set (lower (wt p)) \<and> i \<notin> set (ignored_pos p) \<and>
         ai \<in> set (nogap_keys ev)
      then Some (projr (fallback_field ev (single_hi p) i ai))
      else if i \<in> set (upper (wt p)) \<and> ai \<in> set (nogap_keys ev)
      then Some (projr (native_field ev (wt p) i ai))
      else None)"
    and "use_single_site_model p \<and> i \<in> set (lower (wt p)) \<and> i \<notin> set (ignored_pos p) \<and>
         ai \<in> set (nogap_keys ev) \<Longrightarrow> \<not> isl (fallback_field ev (single_hi p) i ai)"
    and "i \<in> set (upper (wt p)) \<and> ai \<in> set (nogap_keys ev) \<Longrightarrow> \<not> isl (native_field ev (wt p) i ai)"
proof -
  from assms obtain h1 idx1 h2 t where
    n: "native_hi ev (wt p) Map.empty = Inr h1" and
    f: "(if use_single_site_model p
      then fallback_hi ev p (filter (\<lambda>i. i \<notin> set (ignored_pos p)) (upper (wt p)), h1)
      else Inr (filter (\<lambda>i. i \<notin> set (ignored_pos p)) (upper (wt p)), h1)) = Inr (idx1, h2)" and
    p': "p' = p\<lparr>hi := h2, hi_indices := sort idx1,
            eij_indices := build_eij_indices (upper (wt p)) (ignored_pos p), eij := t\<rparr>"
    by (rule extract_ev_paras_Inr)
  from native_hi_result [OF n]
  have n1: "\<forall>i\<in>set (upper (wt p)). \<forall>ai\<in>set (nogap_keys ev).
              \<exists>v. native_field ev (wt p) i ai = Inr v \<and> h1 (i, ai) = Some v"
    and n2: "\<forall>i ai. \<not> (i \<in> set (upper (wt p)) \<and> ai \<in> set (nogap_keys ev)) \<longrightarrow> h1 (i, ai) = None"
    by simp_all
  have h1: "h1 (i, ai) = (if i \<in> set (upper (wt p)) \<and> ai \<in> set (nogap_keys ev)
      then Some (projr (native_field ev (wt p) i ai)) else None)"
    using n1 n2 by fastforce
  from n1 show "i \<in> set (upper (wt p)) \<and> ai \<in> set (nogap_keys ev) \<Longrightarrow> \<not> isl (native_field ev (wt p) i ai)"
    by fastforce
  have hp: "hi p' = h2" using p' by simp
  show "hi p' (i, ai) =
     (if use_single_site_model p \<and> i \<in> set (lower (wt p)) \<and> i \<notin> set (ignored_pos p) \<and>
         ai \<in> set (nogap_keys ev)
      then Some (projr (fallback_field ev (single_hi p) i ai))
      else if i \<in> set (upper (wt p)) \<and> ai \<in> set (nogap_keys ev)
      then Some (projr (native_field ev (wt p) i ai))
      else None)"
  proof (cases "use_single_site_model p")
    case False
    with f have "h2 = h1" by simp
    with False hp h1 show ?thesis by simp
  next
    case True
    with f have fb: "fallback_hi ev p (filter (\<lambda>i. i \<notin> set (ignored_pos p)) (upper (wt p)), h1) = Inr (idx1, h2)"
      by simp
    from fallback_hi_result(2,3) [OF fb]
    have f1: "\<forall>i\<in>set (lower (wt p)). i \<notin> set (ignored_pos p) \<longrightarrow>
           (\<forall>ai\<in>set (nogap_keys ev). \<exists>v. fallback_field ev (single_hi p) i ai = Inr v \<and> h2 (i, ai) = Some v)"
      and f2: "\<forall>i ai. \<not> (i \<in> set (lower (wt p)) \<and> i \<notin> set (ignored_pos p) \<and> ai \<in> set (nogap_keys ev))
           \<longrightarrow> h2 (i, ai) = h1 (i, ai)"
      by blast+
    show ?thesis
    proof (cases "i \<in> set (lower (wt p)) \<and> i \<notin> set (ignored_pos p) \<and> ai \<in> set (nogap_keys ev)")
      case c: True
      with f1 obtain v where "fallback_field ev (single_hi p) i ai = Inr v" "h2 (i, ai) = Some v"
        by blast
      with c True hp show ?thesis by simp
    next
      case c: False
      with f2 have "h2 (i, ai) = h1 (i, ai)" by blast
      with hp h1 have "hi p' (i, ai) = (if i \<in> set (upper (wt p)) \<and> ai \<in> set (nogap_keys ev)
          then Some (projr (native_field ev (wt p) i ai)) else None)"
        by simp
      with c show ?thesis by auto
    qed
  qed
  show "\<not> isl (fallback_field ev (single_hi p) i ai)"
    if c: "use_single_site_model p \<and> i \<in> set (lower (wt p)) \<and> i \<notin> set (ignored_pos p) \<and>
         ai \<in> set (nogap_keys ev)"
  proof -
    from c f have fb: "fallback_hi ev p (filter (\<lambda>i. i \<notin> set (ignored_pos p)) (upper (wt p)), h1) = Inr (idx1, h2)"
      by simp
    from fallback_hi_result(2) [OF fb] c show ?thesis by fastforce
  qed
qed

lemma eij_result:
  assumes "extract_ev_paras ev p = Inr p'"
  shows "eij p' (i, j, ai, aj) =
     (if (i, j) \<in> set (eij_indices p') \<and> in_mutations p i ai \<and> in_mutations p j aj
      then Some (projr (coupling ev (wt p) i j ai aj)) else None)"
    and "(i, j) \<in> set (eij_indices p') \<and> in_mutations p i ai \<and> in_mutations p j aj
         \<Longrightarrow> \<not> isl (coupling ev (wt p) i j ai aj)"
proof -
  from assms obtain h1 idx1 h2 t where
    b: "build_eij ev p (build_eij_indices (upper (wt p)) (ignored_pos p)) Map.empty = Inr t" and
    p': "p' = p\<lparr>hi := h2, hi_indices := sort idx1,
            eij_indices := build_eij_indices (upper (wt p)) (ignored_pos p), eij := t\<rparr>"
    by (rule extract_ev_paras_Inr)
  have e: "eij p' = t" "eij_indices p' = build_eij_indices (upper (wt p)) (ignored_pos p)"
    using p' by simp_all
  from build_eij_result [OF b]
  have r1: "\<forall>i j ai aj. (i, j) \<in> set (eij_indices p') \<and> in_mutations p i ai \<and> in_mutations p j aj \<longrightarrow>
            (\<exists>v. coupling ev (wt p) i j ai aj = Inr v \<and> t (i, j, ai, aj) = Some v)"
    and r2: "\<forall>i j ai aj. \<not> ((i, j) \<in> set (eij_indices p') \<and> in_mutations p i ai \<and> in_mutations p j aj) \<longrightarrow>
            t (i, j, ai, aj) = None"
    unfolding e by simp_all
  from r1 r2 show "eij p' (i, j, ai, aj) =
     (if (i, j) \<in> set (eij_indices p') \<and> in_mutations p i ai \<and> in_mutations p j aj
      then Some (projr (coupling ev (wt p) i j ai aj)) else None)"
    unfolding e by fastforce
  from r1 show "(i, j) \<in> set (eij_indices p') \<and> in_mutations p i ai \<and> in_mutations p j aj
         \<Longrightarrow> \<not> isl (coupling ev (wt p) i j ai aj)"
    by fastforce
qed

section \<open>The pairwise index list\<close>


text \<open>Evaluation of the example run.\<close>

lemmas eval_defs = extract_ev_paras_def ev_ex_def p_ex_def wt_ex_def native_hi_def nogap_keys_def
      native_field_def dict_get_def np_get2_def np_get_def np_index_def fallback_hi_def fallback_field_def
      build_eij_def coupling_def np_get4_def

lemma ex_pairs: "build_eij_indices [0, 1, 2] [0] = [(1, 2)]"
  by (simp add: build_eij_indices_def eij_pairs_def)

lemma ex_success: "\<not> isl (extract_ev_paras ev_ex p_ex)"
  by (simp add: eval_defs ex_pairs)

lemma ex_eij_indices: "eij_indices (projr (extract_ev_paras ev_ex p_ex)) = [(1, 2)]"
  by (simp add: eval_defs ex_pairs)

text \<open>
  C1: the claim is that eij\_indices holds every pair of distinct native positions of which at
  least one is not ignored. The guard of the comprehension tests the smaller position only: in
  the example run positions 0 and 1 are native, 0 is ignored and 1 is not, and the pair (0, 1)
  is not in eij\_indices.
\<close>

theorem eij_indices_drops_pair_with_ignored_smaller_position:
  "\<not> isl (extract_ev_paras ev_ex p_ex) \<and>
   (0::int) \<in> set (upper (wt p_ex)) \<and> (1::int) \<in> set (upper (wt p_ex)) \<and>
   (0::int) \<in> set (ignored_pos p_ex) \<and> (1::int) \<notin> set (ignored_pos p_ex) \<and>
   (0, 1) \<notin> set (eij_indices (projr (extract_ev_paras ev_ex p_ex)))"
  by (simp add: ex_success ex_eij_indices) (simp add: p_ex_def wt_ex_def)

section \<open>Sign convention\<close>

lemma native_field_Inr:
  assumes "native_field ev w i ai = Inr v"
  shows "\<exists>u c a x. map_to_uniprot w i = Inr u \<and> index_map ev u = Some c \<and>
           map_of (alphabet_map ev) ai = Some a \<and> np_get2 (h_i ev) c a = Inr x \<and> v = - 1 * x"
  using assms unfolding native_field_def dict_get_def
  by (auto simp: bindE_Inr_iff split: option.splits)

lemma fallback_field_Inr:
  assumes "fallback_field ev sh i ai = Inr v"
  shows "\<exists>a x. map_of (alphabet_map ev) ai = Some a \<and> np_get2 sh i a = Inr x \<and> v = - 1 * x"
  using assms unfolding fallback_field_def dict_get_def
  by (auto simp: bindE_Inr_iff split: option.splits)

lemma coupling_Inr:
  assumes "coupling ev w i j ai aj = Inr v"
  shows "\<exists>ui ci uj cj a b x. map_to_uniprot w i = Inr ui \<and> index_map ev ui = Some ci \<and>
           map_to_uniprot w j = Inr uj \<and> index_map ev uj = Some cj \<and>
           map_of (alphabet_map ev) ai = Some a \<and> map_of (alphabet_map ev) aj = Some b \<and>
           np_get4 (J_ij ev) ci cj a b = Inr x \<and> v = - 1 * x"
  using assms unfolding coupling_def dict_get_def
  by (auto simp: bindE_Inr_iff split: option.splits)

text \<open>
  C5: after a successful extract\_ev\_paras every stored energy is \<open>-1\<close> times the model value
  it was read from. An entry of hi at a non-ignored lower position (single-site model enabled)
  is the negated fitted field \<open>single_hi[i, alphabet_map[aa]]\<close>; every other entry of hi is
  the negated coupling-model field \<open>h_i[index_map[map_to_uniprot(i)], alphabet_map[aa]]\<close>;
  every entry of eij is the negated coupling \<open>J_ij\<close> at the mapped columns and symbol indices.
\<close>

theorem energies_are_negated_model_values:
  assumes "extract_ev_paras ev p = Inr p'"
  shows "(\<forall>i aa v. hi p' (i, aa) = Some v \<longrightarrow>
            (if use_single_site_model p \<and> i \<in> set (lower (wt p)) \<and> i \<notin> set (ignored_pos p)
             then \<exists>a x. map_of (alphabet_map ev) aa = Some a \<and>
                         np_get2 (single_hi p) i a = Inr x \<and> v = - 1 * x
             else \<exists>u c a x. map_to_uniprot (wt p) i = Inr u \<and> index_map ev u = Some c \<and>
                         map_of (alphabet_map ev) aa = Some a \<and>
                         np_get2 (h_i ev) c a = Inr x \<and> v = - 1 * x)) \<and>
         (\<forall>i j ai aj v. eij p' (i, j, ai, aj) = Some v \<longrightarrow>
            (\<exists>ui ci uj cj a b x. map_to_uniprot (wt p) i = Inr ui \<and> index_map ev ui = Some ci \<and>
                map_to_uniprot (wt p) j = Inr uj \<and> index_map ev uj = Some cj \<and>
                map_of (alphabet_map ev) ai = Some a \<and> map_of (alphabet_map ev) aj = Some b \<and>
                np_get4 (J_ij ev) ci cj a b = Inr x \<and> v = - 1 * x))"
proof (intro conjI allI impI)
  fix i aa v
  assume h: "hi p' (i, aa) = Some v"
  let ?fb = "use_single_site_model p \<and> i \<in> set (lower (wt p)) \<and> i \<notin> set (ignored_pos p)"
  show "if ?fb
        then \<exists>a x. map_of (alphabet_map ev) aa = Some a \<and>
                    np_get2 (single_hi p) i a = Inr x \<and> v = - 1 * x
        else \<exists>u c a x. map_to_uniprot (wt p) i = Inr u \<and> index_map ev u = Some c \<and>
                    map_of (alphabet_map ev) aa = Some a \<and>
                    np_get2 (h_i ev) c a = Inr x \<and> v = - 1 * x"
  proof (cases ?fb)
    case True
    have k: "aa \<in> set (nogap_keys ev)"
    proof (rule ccontr)
      assume "aa \<notin> set (nogap_keys ev)"
      with hi_result(1) [OF assms, of i aa] h show False by simp
    qed
    with True hi_result(1) [OF assms, of i aa] h
    have v: "v = projr (fallback_field ev (single_hi p) i aa)" by simp
    from hi_result(2) [OF assms, of i aa] True k
    have "\<not> isl (fallback_field ev (single_hi p) i aa)" by simp
    with v have "fallback_field ev (single_hi p) i aa = Inr v" by simp
    from fallback_field_Inr [OF this] True show ?thesis by simp
  next
    case False
    with hi_result(1) [OF assms, of i aa] h
    have k: "i \<in> set (upper (wt p)) \<and> aa \<in> set (nogap_keys ev)"
      and v: "v = projr (native_field ev (wt p) i aa)"
      by (auto split: if_splits)
    from hi_result(3) [OF assms, of i aa] k
    have "\<not> isl (native_field ev (wt p) i aa)" by simp
    with v have "native_field ev (wt p) i aa = Inr v" by simp
    from native_field_Inr [OF this] False show ?thesis by auto
  qed
next
  fix i j ai aj v
  assume h: "eij p' (i, j, ai, aj) = Some v"
  with eij_result(1) [OF assms, of i j ai aj]
  have k: "(i, j) \<in> set (eij_indices p') \<and> in_mutations p i ai \<and> in_mutations p j aj"
    and v: "v = projr (coupling ev (wt p) i j ai aj)"
    by (auto split: if_splits)
  from eij_result(2) [OF assms, of i j ai aj] k
  have "\<not> isl (coupling ev (wt p) i j ai aj)" by simp
  with v have "coupling ev (wt p) i j ai aj = Inr v" by simp
  from coupling_Inr [OF this]
  show "\<exists>ui ci uj cj a b x. map_to_uniprot (wt p) i = Inr ui \<and> index_map ev ui = Some ci \<and>
                map_to_uniprot (wt p) j = Inr uj \<and> index_map ev uj = Some cj \<and>
                map_of (alphabet_map ev) ai = Some a \<and> map_of (alphabet_map ev) aj = Some b \<and>
                np_get4 (J_ij ev) ci cj a b = Inr x \<and> v = - 1 * x" .
qed

text \<open>Entries of the example run.\<close>

lemma ex_run: "extract_ev_paras ev_ex p_ex = Inr (projr (extract_ev_paras ev_ex p_ex))"
  using ex_success by simp

lemma ex_unchanged:
  "possible_mutations (projr (extract_ev_paras ev_ex p_ex)) = possible_mutations p_ex"
  by (rule extract_ev_paras_Inr [OF ex_run]) simp

lemma ex_hi_native: "hi (projr (extract_ev_paras ev_ex p_ex)) (1, ''A'') \<noteq> None"
  using hi_result(1) [OF ex_run, of 1 "''A''"]
  by (simp add: p_ex_def wt_ex_def ev_ex_def nogap_keys_def)

lemma ex_hi_fallback: "hi (projr (extract_ev_paras ev_ex p_ex)) (3, ''A'') \<noteq> None"
  using hi_result(1) [OF ex_run, of 3 "''A''"]
  by (simp add: p_ex_def wt_ex_def ev_ex_def nogap_keys_def)

lemma ex_hi_ignored: "hi (projr (extract_ev_paras ev_ex p_ex)) (0, ''A'') = Some (- 1)"
  using hi_result(1) [OF ex_run, of 0 "''A''"]
  by (simp add: p_ex_def wt_ex_def ev_ex_def nogap_keys_def native_field_def dict_get_def
      np_get2_def np_get_def np_index_def)

lemma ex_eij_entry: "eij (projr (extract_ev_paras ev_ex p_ex)) (1, 2, ''C'', ''A'') \<noteq> None"
  using eij_result(1) [OF ex_run, of 1 2 "''C''" "''A''"]
  by (simp add: ex_eij_indices) (simp add: in_mutations_def p_ex_def np_get_def np_index_def)

theorem energies_are_negated_model_values_witness:
  "\<not> isl (extract_ev_paras ev_ex p_ex) \<and>
   np_get2 (h_i ev_ex) 1 0 = Inr 4 \<and>
   hi (projr (extract_ev_paras ev_ex p_ex)) (1, ''A'') = Some (- 1 * 4) \<and>
   np_get2 (single_hi p_ex) 3 0 = Inr (1 / 2) \<and>
   hi (projr (extract_ev_paras ev_ex p_ex)) (3, ''A'') = Some (- 1 * (1 / 2)) \<and>
   np_get4 (J_ij ev_ex) 1 2 1 0 = Inr 4 \<and>
   eij (projr (extract_ev_paras ev_ex p_ex)) (1, 2, ''C'', ''A'') = Some (- 1 * 4)"
proof -
  note t = energies_are_negated_model_values [OF ex_run]
  let ?p' = "projr (extract_ev_paras ev_ex p_ex)"
  from ex_hi_native obtain v1 where v1: "hi ?p' (1, ''A'') = Some v1" by blast
  from ex_hi_fallback obtain v2 where v2: "hi ?p' (3, ''A'') = Some v2" by blast
  from ex_eij_entry obtain v3 where v3: "eij ?p' (1, 2, ''C'', ''A'') = Some v3" by blast
  have l1: "np_get2 (h_i ev_ex) 1 0 = Inr 4"
    and l2: "np_get2 (single_hi p_ex) 3 0 = Inr (1 / 2)"
    and l3: "np_get4 (J_ij ev_ex) 1 2 1 0 = Inr 4"
    by (simp_all add: ev_ex_def p_ex_def np_get4_def np_get2_def np_get_def np_index_def)
  from t v1
  have "if use_single_site_model p_ex \<and> 1 \<in> set (lower (wt p_ex)) \<and> 1 \<notin> set (ignored_pos p_ex)
        then \<exists>a x. map_of (alphabet_map ev_ex) ''A'' = Some a \<and>
                    np_get2 (single_hi p_ex) 1 a = Inr x \<and> v1 = - 1 * x
        else \<exists>u c a x. map_to_uniprot (wt p_ex) 1 = Inr u \<and> index_map ev_ex u = Some c \<and>
                    map_of (alphabet_map ev_ex) ''A'' = Some a \<and>
                    np_get2 (h_i ev_ex) c a = Inr x \<and> v1 = - 1 * x"
    by blast
  then have "v1 = - 1 * 4"
    by (auto simp: p_ex_def wt_ex_def ev_ex_def np_get2_def np_get_def np_index_def)
  moreover from t v2
  have "if use_single_site_model p_ex \<and> 3 \<in> set (lower (wt p_ex)) \<and> 3 \<notin> set (ignored_pos p_ex)
        then \<exists>a x. map_of (alphabet_map ev_ex) ''A'' = Some a \<and>
                    np_get2 (single_hi p_ex) 3 a = Inr x \<and> v2 = - 1 * x
        else \<exists>u c a x. map_to_uniprot (wt p_ex) 3 = Inr u \<and> index_map ev_ex u = Some c \<and>
                    map_of (alphabet_map ev_ex) ''A'' = Some a \<and>
                    np_get2 (h_i ev_ex) c a = Inr x \<and> v2 = - 1 * x"
    by blast
  then have "v2 = - 1 * (1 / 2)"
    by (auto simp: p_ex_def wt_ex_def ev_ex_def np_get2_def np_get_def np_index_def)
  moreover from t v3
  have "\<exists>ui ci uj cj a b x. map_to_uniprot (wt p_ex) 1 = Inr ui \<and> index_map ev_ex ui = Some ci \<and>
                map_to_uniprot (wt p_ex) 2 = Inr uj \<and> index_map ev_ex uj = Some cj \<and>
                map_of (alphabet_map ev_ex) ''C'' = Some a \<and> map_of (alphabet_map ev_ex) ''A'' = Some b \<and>
                np_get4 (J_ij ev_ex) ci cj a b = Inr x \<and> v3 = - 1 * x"
    by blast
  then have "v3 = - 1 * 4"
    by (auto simp: p_ex_def wt_ex_def ev_ex_def np_get4_def np_get2_def np_get_def np_index_def)
  ultimately show ?thesis using ex_success v1 v2 v3 l1 l2 l3 by simp
qed

section \<open>Positions and symbols of the table keys\<close>

text \<open>
  C2: the claim is that no key of hi has an ignored position. The fallback loop tests
  \<open>i not in self.ignored_pos\<close>, the native loop does not: in the example run position 0 is
  native and ignored, and hi has the entry (0, A) with value \<open>-1\<close>.
\<close>

theorem hi_keeps_ignored_native_position:
  "\<not> isl (extract_ev_paras ev_ex p_ex) \<and>
   (0::int) \<in> set (upper (wt p_ex)) \<and> (0::int) \<in> set (ignored_pos p_ex) \<and>
   hi (projr (extract_ev_paras ev_ex p_ex)) (0, ''A'') = Some (- 1)"
  using ex_success ex_hi_ignored by (simp add: p_ex_def wt_ex_def)

text \<open>
  C3 (as the code has it): after a successful extract\_ev\_paras, every key (i, j, ai, aj) of eij
  has ai in possible\_mutations[i] and aj in possible\_mutations[j]; every key (i, aa) of hi has
  aa among the keys of the alphabet map and aa is not the gap. The hi table is filled for the
  whole alphabet and does not consult possible\_mutations.
\<close>

theorem energy_keys_allowed:
  assumes "extract_ev_paras ev p = Inr p'"
  shows "(\<forall>i j ai aj. eij p' (i, j, ai, aj) \<noteq> None \<longrightarrow>
            in_mutations p' i ai \<and> in_mutations p' j aj) \<and>
         (\<forall>i aa. hi p' (i, aa) \<noteq> None \<longrightarrow> aa \<in> fst ` set (alphabet_map ev) \<and> aa \<noteq> ''-'')"
proof -
  have "possible_mutations p' = possible_mutations p"
    by (rule extract_ev_paras_Inr [OF assms]) simp
  then have m: "in_mutations p' = in_mutations p"
    by (simp add: in_mutations_def fun_eq_iff)
  have "in_mutations p i ai \<and> in_mutations p j aj" if "eij p' (i, j, ai, aj) \<noteq> None" for i j ai aj
    using eij_result(1) [OF assms, of i j ai aj] that by (simp split: if_splits)
  moreover have "aa \<in> fst ` set (alphabet_map ev) \<and> aa \<noteq> ''-''" if "hi p' (i, aa) \<noteq> None" for i aa
  proof -
    from hi_result(1) [OF assms, of i aa] that have "aa \<in> set (nogap_keys ev)"
      by (simp split: if_splits)
    then show ?thesis by (simp add: nogap_keys_def)
  qed
  ultimately show ?thesis unfolding m by blast
qed

theorem energy_keys_allowed_witness:
  "\<not> isl (extract_ev_paras ev_ex p_ex) \<and>
   eij (projr (extract_ev_paras ev_ex p_ex)) (1, 2, ''C'', ''A'') \<noteq> None \<and>
   in_mutations (projr (extract_ev_paras ev_ex p_ex)) 1 ''C'' \<and>
   in_mutations (projr (extract_ev_paras ev_ex p_ex)) 2 ''A'' \<and>
   hi (projr (extract_ev_paras ev_ex p_ex)) (1, ''A'') \<noteq> None \<and>
   ''A'' \<in> fst ` set (alphabet_map ev_ex) \<and> ''A'' \<noteq> ''-''"
  using energy_keys_allowed [OF ex_run] ex_success ex_eij_entry ex_hi_native by blast

text \<open>
  C3 as stated fails for hi: in the example run possible\_mutations[1] is the set with C only,
  and hi has the key (1, A).
\<close>

theorem hi_key_outside_possible_mutations_counterexample:
  "\<not> isl (extract_ev_paras ev_ex p_ex) \<and>
   hi (projr (extract_ev_paras ev_ex p_ex)) (1, ''A'') \<noteq> None \<and>
   \<not> in_mutations (projr (extract_ev_paras ev_ex p_ex)) 1 ''A''"
  using ex_success ex_hi_native
  by (simp add: in_mutations_def ex_unchanged) (simp add: p_ex_def np_get_def np_index_def)

section \<open>Frequency counting\<close>

lemma upper_lower_char: "upper_char (lower_char c) = upper_char c"
proof -
  define n :: nat where "n = of_char c"
  have c: "char_of n = c" by (simp add: n_def)
  show ?thesis
  proof (cases "65 \<le> n \<and> n \<le> 90")
    case True
    then have "lower_char c = char_of (n + 32)"
      by (simp add: lower_char_def n_def)
    moreover from True have "(of_char (char_of (n + 32)) :: nat) = n + 32"
      by simp
    ultimately have "upper_char (lower_char c) = char_of n"
      using True by (simp add: upper_char_def)
    moreover from True have "upper_char c = c"
      by (simp add: upper_char_def n_def)
    ultimately show ?thesis using c by simp
  next
    case False
    then have "lower_char c = c"
      by (auto simp: lower_char_def n_def)
    then show ?thesis by simp
  qed
qed

lemma str_upper_lower: "str_upper (str_lower s) = str_upper s"
  by (simp add: str_upper_def str_lower_def upper_lower_char)

lemma foldE_cong:
  "(\<And>x s. x \<in> set xs \<Longrightarrow> f x s = g x s) \<Longrightarrow> foldE f xs s = foldE g xs s"
proof (induction xs arbitrary: s)
  case Nil
  then show ?case by simp
next
  case (Cons x xs)
  have "f x s = g x s" using Cons.prems by simp
  moreover have "foldE f xs = foldE g xs"
    using Cons by (intro ext) simp
  ultimately show ?case by simp
qed

lemma count_cell_upper:
  "str_upper c1 = str_upper c2 \<Longrightarrow> count_cell fl ev i c1 = count_cell fl ev i c2"
  by (simp add: count_cell_def fun_eq_iff)

lemma shape2_Inr:
  assumes "shape2 m = Inr (N, L)"
  shows "N = length m \<and> L = length (hd m) \<and> m \<noteq> []"
proof (cases "m \<noteq> [] \<and> (\<forall>r\<in>set m. length r = length (hd m))")
  case True
  then have "shape2 m = Inr (length m, length (hd m))"
    unfolding shape2_def by (rule if_P)
  with assms have "N = length m \<and> L = length (hd m)" by simp
  moreover from True have "m \<noteq> []" by (rule conjunct1)
  ultimately show ?thesis by simp
next
  case False
  then have "shape2 m = Inl ValueError"
    unfolding shape2_def by (rule if_not_P)
  with assms show ?thesis by simp
qed

lemma shape2_rows:
  assumes "shape2 m = Inr (N, L)" and "s < N"
  shows "length (m ! s) = L"
proof (rule ccontr)
  assume c: "length (m ! s) \<noteq> L"
  from shape2_Inr [OF assms(1)] have N: "N = length m" and L: "L = length (hd m)" by blast+
  from assms(2) N have "m ! s \<in> set m" by simp
  with c L have "\<exists>r\<in>set m. length r \<noteq> length (hd m)" by blast
  then have "\<not> (m \<noteq> [] \<and> (\<forall>r\<in>set m. length r = length (hd m)))" by blast
  then have "shape2 m = Inl ValueError" unfolding shape2_def by (rule if_not_P)
  with assms(1) show False by simp
qed

lemma shape2_lengths:
  assumes "map length m' = map length m"
  shows "shape2 m' = shape2 m"
proof -
  from assms have l: "length m' = length m"
    by (rule map_eq_imp_length_eq)
  have img: "length ` set m' = length ` set m"
    using arg_cong [OF assms, of set] by (simp only: set_map)
  have "(\<forall>r\<in>set m'. length r = k) \<longleftrightarrow> (\<forall>r\<in>set m. length r = k)" for k
  proof -
    have "(\<forall>r\<in>set m'. length r = k) \<longleftrightarrow> (\<forall>n\<in>length ` set m'. n = k)" by blast
    also have "\<dots> \<longleftrightarrow> (\<forall>n\<in>length ` set m. n = k)" unfolding img ..
    also have "\<dots> \<longleftrightarrow> (\<forall>r\<in>set m. length r = k)" by blast
    finally show ?thesis .
  qed
  then have b: "(\<forall>r\<in>set m'. length r = length (hd m)) \<longleftrightarrow> (\<forall>r\<in>set m. length r = length (hd m))" .
  show ?thesis
  proof (cases "m = []")
    case True
    with l have "m' = []" by simp
    with True show ?thesis by (simp add: shape2_def)
  next
    case False
    with l have ne': "m' \<noteq> []" by auto
    have "hd (map length m') = hd (map length m)" unfolding assms ..
    with False ne' have e: "length (hd m') = length (hd m)" by (simp add: hd_map)
    from False ne' have n: "(m' \<noteq> []) = True" "(m \<noteq> []) = True" by simp_all
    show ?thesis unfolding shape2_def e l b n by (rule refl)
  qed
qed

text \<open>
  C10: \_frequencies is case-insensitive. If the alignment \<open>m'\<close> has the shape of \<open>m\<close> and every
  residue of \<open>m'\<close> is the residue of \<open>m\<close> at the same place or its lower-case form, then
  \_frequencies returns the same result for both: the same matrix, or the same exception. This
  holds whatever the arithmetic of the entries is. Lower-case gap and ambiguity codes are
  upper-cased before the test against the excluded symbols, so they are skipped as well.
\<close>

theorem frequencies_case_insensitive:
  assumes "list_all2 (list_all2 (\<lambda>c' c. c' = c \<or> c' = str_lower c)) m' m"
  shows "frequencies fl m' ev = frequencies fl m ev"
proof -
  from assms have len: "length m' = length m"
    by (rule list_all2_lengthD)
  have row: "list_all2 (\<lambda>c' c. c' = c \<or> c' = str_lower c) (m' ! s) (m ! s)" if "s < length m" for s
    using assms that by (rule list_all2_nthD2)
  have rlen: "length (m' ! s) = length (m ! s)" if "s < length m" for s
    using row [OF that] by (rule list_all2_lengthD)
  have cell: "str_upper (m' ! s ! i) = str_upper (m ! s ! i)"
    if "s < length m" "i < length (m ! s)" for s i
  proof -
    from row [OF that(1)] that(2)
    have "m' ! s ! i = m ! s ! i \<or> m' ! s ! i = str_lower (m ! s ! i)"
      by (rule list_all2_nthD2)
    then show ?thesis
    proof
      assume "m' ! s ! i = m ! s ! i"
      then show ?thesis by simp
    next
      assume "m' ! s ! i = str_lower (m ! s ! i)"
      then show ?thesis by (simp only: str_upper_lower)
    qed
  qed
  have "map length m' = map length m"
  proof (rule nth_equalityI)
    show "length (map length m') = length (map length m)" using len by simp
  next
    fix s assume "s < length (map length m')"
    with len have "s < length m" "s < length m'" by simp_all
    with rlen show "map length m' ! s = map length m ! s" by simp
  qed
  then have sh: "shape2 m' = shape2 m" by (rule shape2_lengths)
  show ?thesis
  proof (cases "shape2 m")
    case (Inl e)
    with sh show ?thesis by (simp add: frequencies_def)
  next
    case (Inr nl)
    obtain N L where nl: "nl = (N, L)" by (cases nl)
    note shp = Inr [unfolded nl]
    from shape2_Inr [OF shp] have N: "N = length m" by blast
    have inner: "foldE (\<lambda>i. count_cell fl ev i (m' ! s ! i)) [0..<L] z =
                 foldE (\<lambda>i. count_cell fl ev i (m ! s ! i)) [0..<L] z"
      if s: "s \<in> set [0..<N]" for s z
    proof (rule foldE_cong)
      fix i fi assume "i \<in> set [0..<L]"
      then have "i < L" by simp
      moreover from s have sN: "s < N" by simp
      ultimately have "i < length (m ! s)" using shape2_rows [OF shp sN] by simp
      moreover from sN N have "s < length m" by simp
      ultimately have "str_upper (m' ! s ! i) = str_upper (m ! s ! i)"
        by (intro cell)
      then show "count_cell fl ev i (m' ! s ! i) fi = count_cell fl ev i (m ! s ! i) fi"
        by (rule fun_cong [OF count_cell_upper])
    qed
    have outer: "foldE (\<lambda>s. foldE (\<lambda>i. count_cell fl ev i (m' ! s ! i)) [0..<L]) [0..<N] z =
          foldE (\<lambda>s. foldE (\<lambda>i. count_cell fl ev i (m ! s ! i)) [0..<L]) [0..<N] z" for z
      by (rule foldE_cong) (rule inner)
    have f: "frequencies fl mm ev =
               bindE (foldE (\<lambda>s. foldE (\<lambda>i. count_cell fl ev i (mm ! s ! i)) [0..<L]) [0..<N]
                        (replicate L (replicate (num_symbols ev) (fl_zero fl))))
                     (\<lambda>fi. Inr (map (map (\<lambda>x. fl_div fl x N)) fi))"
      if "shape2 mm = Inr (N, L)" for mm :: "string list list"
      unfolding frequencies_def that bindE_simps prod.case ..
    from sh shp have shp': "shape2 m' = Inr (N, L)" by simp
    show ?thesis
      unfolding f [OF shp] f [OF shp'] outer ..
  qed
qed

lemma matrix_ex_lowered:
  "list_all2 (list_all2 (\<lambda>c' c. c' = c \<or> c' = str_lower c)) matrix_ex_lower matrix_ex"
  unfolding matrix_ex_lower_def matrix_ex_def by code_simp

lemma term_freq_ex:
  "frequencies term_ops matrix_ex ev_ex =
     Inr [[FDiv (FIncr (FIncr (FIncr FZero))) 4, FDiv (FIncr FZero) 4, FDiv FZero 4],
          [FDiv FZero 4, FDiv (FIncr (FIncr (FIncr FZero))) 4, FDiv FZero 4],
          [FDiv FZero 4, FDiv FZero 4, FDiv FZero 4]]"
  by code_simp

theorem frequencies_case_insensitive_witness:
  "list_all2 (list_all2 (\<lambda>c' c. c' = c \<or> c' = str_lower c)) matrix_ex_lower matrix_ex \<and>
   frequencies term_ops matrix_ex_lower ev_ex = frequencies term_ops matrix_ex ev_ex \<and>
   frequencies term_ops matrix_ex_lower ev_ex =
     Inr [[FDiv (FIncr (FIncr (FIncr FZero))) 4, FDiv (FIncr FZero) 4, FDiv FZero 4],
          [FDiv FZero 4, FDiv (FIncr (FIncr (FIncr FZero))) 4, FDiv FZero 4],
          [FDiv FZero 4, FDiv FZero 4, FDiv FZero 4]]"
  using frequencies_case_insensitive [OF matrix_ex_lowered, of term_ops ev_ex]
    matrix_ex_lowered term_freq_ex by simp

section \<open>A column that the coupling model does not have\<close>






section \<open>Serializing twice\<close>


section \<open>Decimal notation and fields\<close>









lemma split_on_not_Nil: "split_on c s \<noteq> []"
  by (cases s) simp_all





















section \<open>Positions in the output\<close>










section \<open>The counts of a column\<close>

lemma np_index_less: "np_index n k = Inr c \<Longrightarrow> c < n"
  by (auto simp: np_index_def split: if_splits)

lemma symbol_index_less: "symbol_index ev a = Inr c \<Longrightarrow> c < num_symbols ev"
  by (auto simp: symbol_index_def bindE_Inr_iff dest: np_index_less)

lemma hits_unique: "hits ev cell c \<Longrightarrow> hits ev cell c' \<Longrightarrow> c = c'"
  by (simp add: hits_def)

lemma hits_less: "hits ev cell c \<Longrightarrow> c < num_symbols ev"
  by (auto simp: hits_def dest: symbol_index_less)

lemma count_cell_Inr:
  assumes "count_cell fl ev i cell fi = Inr fi'" and "i < length fi"
    and "\<forall>j<length fi. length (fi ! j) = num_symbols ev"
  shows "length fi' = length fi"
    and "\<forall>j<length fi. length (fi' ! j) = num_symbols ev"
    and "\<forall>j c. j < length fi \<and> c < num_symbols ev \<longrightarrow>
           fi' ! j ! c = (if j = i \<and> hits ev cell c then fl_incr fl (fi ! j ! c) else fi ! j ! c)"
    and "str_upper cell \<in> set excluded_symbols \<or> (\<exists>c. hits ev cell c)"
proof -
  show "length fi' = length fi"
    using assms(1) by (auto simp: count_cell_def Let_def bindE_Inr_iff split: if_splits)
  show "\<forall>j<length fi. length (fi' ! j) = num_symbols ev"
    using assms by (auto simp: count_cell_def Let_def bindE_Inr_iff nth_list_update split: if_splits)
  show "str_upper cell \<in> set excluded_symbols \<or> (\<exists>c. hits ev cell c)"
    using assms(1) by (auto simp: count_cell_def Let_def bindE_Inr_iff hits_def split: if_splits)
  show "\<forall>j c. j < length fi \<and> c < num_symbols ev \<longrightarrow>
           fi' ! j ! c = (if j = i \<and> hits ev cell c then fl_incr fl (fi ! j ! c) else fi ! j ! c)"
  proof (cases "str_upper cell \<in> set excluded_symbols")
    case True
    with assms(1) have "fi' = fi" by (simp add: count_cell_def)
    with True show ?thesis by (simp add: hits_def)
  next
    case False
    with assms(1) obtain c0 where c0: "symbol_index ev (str_upper cell) = Inr c0"
      and fi': "fi' = fi[i := (fi ! i)[c0 := fl_incr fl (fi ! i ! c0)]]"
      by (auto simp: count_cell_def Let_def bindE_Inr_iff)
    from False c0 have h: "hits ev cell c \<longleftrightarrow> c = c0" for c
      by (auto simp: hits_def)
    show ?thesis
      using assms(2,3) by (auto simp: fi' h nth_list_update)
  qed
qed

lemma row_loop_Inr:
  assumes "foldE (\<lambda>i. count_cell fl ev i (r ! i)) js fi = Inr fi'"
    and "\<forall>i\<in>set js. i < length fi" and "distinct js"
    and "\<forall>j<length fi. length (fi ! j) = num_symbols ev"
  shows "length fi' = length fi \<and>
         (\<forall>j<length fi. length (fi' ! j) = num_symbols ev) \<and>
         (\<forall>j c. j < length fi \<and> c < num_symbols ev \<longrightarrow>
            fi' ! j ! c = (if j \<in> set js \<and> hits ev (r ! j) c then fl_incr fl (fi ! j ! c)
                           else fi ! j ! c)) \<and>
         (\<forall>i\<in>set js. str_upper (r ! i) \<in> set excluded_symbols \<or> (\<exists>c. hits ev (r ! i) c))"
  using assms
proof (induction js arbitrary: fi)
  case Nil
  then show ?case by simp
next
  case (Cons x xs)
  let ?F = "\<lambda>i. count_cell fl ev i (r ! i)"
  from Cons.prems(1) have step: "bindE (?F x fi) (foldE ?F xs) = Inr fi'"
    by (simp only: foldE.simps)
  then obtain f1 where first: "?F x fi = Inr f1"
    by (cases "?F x fi") simp_all
  from step have rest: "foldE ?F xs f1 = Inr fi'"
    by (simp only: first bindE_simps)
  from Cons.prems have x: "x < length fi" "x \<notin> set xs" by simp_all
  note c = count_cell_Inr [OF first x(1) Cons.prems(4)]
  have l1: "length f1 = length fi" by (rule c(1))
  have r1: "\<forall>j<length f1. length (f1 ! j) = num_symbols ev" using c(2) l1 by simp
  have "\<forall>i\<in>set xs. i < length f1" using Cons.prems(2) l1 by simp
  moreover have "distinct xs" using Cons.prems(3) by simp
  ultimately have ih: "length fi' = length f1 \<and>
         (\<forall>j<length f1. length (fi' ! j) = num_symbols ev) \<and>
         (\<forall>j c. j < length f1 \<and> c < num_symbols ev \<longrightarrow>
            fi' ! j ! c = (if j \<in> set xs \<and> hits ev (r ! j) c then fl_incr fl (f1 ! j ! c)
                           else f1 ! j ! c)) \<and>
         (\<forall>i\<in>set xs. str_upper (r ! i) \<in> set excluded_symbols \<or> (\<exists>c. hits ev (r ! i) c))"
    using Cons.IH [OF rest] r1 by blast
  have "fi' ! j ! c = (if j \<in> set (x # xs) \<and> hits ev (r ! j) c then fl_incr fl (fi ! j ! c)
                       else fi ! j ! c)"
    if "j < length fi \<and> c < num_symbols ev" for j c
  proof -
    from that ih l1 have "fi' ! j ! c = (if j \<in> set xs \<and> hits ev (r ! j) c then fl_incr fl (f1 ! j ! c)
                           else f1 ! j ! c)"
      by simp
    moreover from that c(3) have "f1 ! j ! c = (if j = x \<and> hits ev (r ! x) c then fl_incr fl (fi ! j ! c)
                           else fi ! j ! c)"
      by simp
    ultimately show ?thesis using x(2) by auto
  qed
  then show ?case using ih l1 c(4) by simp
qed

lemma matrix_loop_Inr:
  assumes "foldE (\<lambda>s. foldE (\<lambda>i. count_cell fl ev i (m ! s ! i)) [0..<L]) ss fi = Inr fi'"
    and "length fi = L"
    and "\<forall>j<L. length (fi ! j) = num_symbols ev"
  shows "length fi' = L \<and>
         (\<forall>j<L. length (fi' ! j) = num_symbols ev) \<and>
         (\<forall>j c. j < L \<and> c < num_symbols ev \<longrightarrow>
            fi' ! j ! c = (fl_incr fl ^^ length (filter (\<lambda>s. hits ev (m ! s ! j) c) ss)) (fi ! j ! c)) \<and>
         (\<forall>s\<in>set ss. \<forall>i<L. str_upper (m ! s ! i) \<in> set excluded_symbols \<or> (\<exists>c. hits ev (m ! s ! i) c))"
  using assms
proof (induction ss arbitrary: fi)
  case Nil
  then show ?case by simp
next
  case (Cons x xs)
  let ?R = "\<lambda>s. foldE (\<lambda>i. count_cell fl ev i (m ! s ! i)) [0..<L]"
  from Cons.prems(1) have step: "bindE (?R x fi) (foldE ?R xs) = Inr fi'"
    by (simp only: foldE.simps)
  then obtain f1 where first: "?R x fi = Inr f1"
    by (cases "?R x fi") simp_all
  from step have rest: "foldE ?R xs f1 = Inr fi'"
    by (simp only: first bindE_simps)
  have "\<forall>i\<in>set [0..<L]. i < length fi" using Cons.prems(2) by simp
  moreover have "\<forall>j<length fi. length (fi ! j) = num_symbols ev"
    using Cons.prems(2,3) by simp
  ultimately have row: "length f1 = length fi \<and>
         (\<forall>j<length fi. length (f1 ! j) = num_symbols ev) \<and>
         (\<forall>j c. j < length fi \<and> c < num_symbols ev \<longrightarrow>
            f1 ! j ! c = (if j \<in> set [0..<L] \<and> hits ev (m ! x ! j) c then fl_incr fl (fi ! j ! c)
                          else fi ! j ! c)) \<and>
         (\<forall>i\<in>set [0..<L]. str_upper (m ! x ! i) \<in> set excluded_symbols \<or> (\<exists>c. hits ev (m ! x ! i) c))"
    using row_loop_Inr [OF first] by simp
  then have l1: "length f1 = L" and r1: "\<forall>j<L. length (f1 ! j) = num_symbols ev"
    using Cons.prems(2) by simp_all
  from Cons.IH [OF rest l1 r1]
  have ih: "length fi' = L \<and>
         (\<forall>j<L. length (fi' ! j) = num_symbols ev) \<and>
         (\<forall>j c. j < L \<and> c < num_symbols ev \<longrightarrow>
            fi' ! j ! c = (fl_incr fl ^^ length (filter (\<lambda>s. hits ev (m ! s ! j) c) xs)) (f1 ! j ! c)) \<and>
         (\<forall>s\<in>set xs. \<forall>i<L. str_upper (m ! s ! i) \<in> set excluded_symbols \<or> (\<exists>c. hits ev (m ! s ! i) c))" .
  have "fi' ! j ! c = (fl_incr fl ^^ length (filter (\<lambda>s. hits ev (m ! s ! j) c) (x # xs))) (fi ! j ! c)"
    if "j < L \<and> c < num_symbols ev" for j c
  proof -
    from that ih have "fi' ! j ! c = (fl_incr fl ^^ length (filter (\<lambda>s. hits ev (m ! s ! j) c) xs)) (f1 ! j ! c)"
      by simp
    moreover from that row Cons.prems(2)
    have "f1 ! j ! c = (if hits ev (m ! x ! j) c then fl_incr fl (fi ! j ! c) else fi ! j ! c)"
      by simp
    ultimately show ?thesis by (simp add: funpow_swap1)
  qed
  moreover have "\<forall>s\<in>set (x # xs). \<forall>i<L. str_upper (m ! s ! i) \<in> set excluded_symbols \<or> (\<exists>c. hits ev (m ! s ! i) c)"
    using row ih by simp
  ultimately show ?case using ih by blast
qed

lemma count_rows: "length (filter (\<lambda>s. P (m ! s)) [0..<length m]) = length (filter P m)"
proof -
  have "filter P m = filter P (map (\<lambda>s. m ! s) [0..<length m])"
    by (simp add: map_nth)
  also have "length \<dots> = length (filter (\<lambda>s. P (m ! s)) [0..<length m])"
    by (simp add: filter_map comp_def)
  finally show ?thesis by simp
qed

lemma sum_hits:
  fixes n :: nat
  assumes "\<forall>row\<in>set rows. P row \<longrightarrow> (\<exists>c<n. h row c)"
    and "\<forall>row c. h row c \<longrightarrow> P row"
    and "\<forall>row c c'. h row c \<and> h row c' \<longrightarrow> c = c'"
  shows "(\<Sum>c<n. length (filter (\<lambda>row. h row c) rows)) = length (filter P rows)"
  using assms(1)
proof (induction rows)
  case Nil
  then show ?case by simp
next
  case (Cons x xs)
  have one: "(\<Sum>c<n. if h x c then 1 else 0) = (if P x then 1 else (0::nat))"
  proof (cases "P x")
    case True
    with Cons.prems obtain c0 where c0: "c0 < n" "h x c0" by auto
    with assms(3) have "(if h x c then 1 else 0) = (if c = c0 then 1 else (0::nat))" for c
      by auto
    then have "(\<Sum>c<n. if h x c then 1 else 0) = (\<Sum>c<n. if c = c0 then 1 else (0::nat))"
      by simp
    also have "\<dots> = 1" using c0(1) by (simp add: sum.delta)
    finally show ?thesis using True by simp
  next
    case False
    with assms(2) have "\<not> h x c" for c by blast
    with False show ?thesis by simp
  qed
  have "(\<Sum>c<n. length (filter (\<lambda>row. h row c) (x # xs))) =
        (\<Sum>c<n. (if h x c then 1 else 0) + length (filter (\<lambda>row. h row c) xs))"
    by (intro sum.cong) auto
  also have "\<dots> = (\<Sum>c<n. if h x c then 1 else 0) + (\<Sum>c<n. length (filter (\<lambda>row. h row c) xs))"
    by (simp add: sum.distrib)
  also have "\<dots> = (if P x then 1 else 0) + length (filter P xs)"
    using one Cons.IH Cons.prems by simp
  finally show ?case by simp
qed

end
